theory Spec2Isabelle
  imports Main "HOL-Library.Word"
begin

section \<open>The slab store of trampoline\<close>

text \<open>
  The program keeps one global, \<^verbatim>\<open>var data [][]byte\<close>, a list of byte slabs. The
  functions below take the value of \<^verbatim>\<open>data\<close> and return the new one. The source has
  \<^verbatim>\<open>add\<close>, \<^verbatim>\<open>release\<close>, \<^verbatim>\<open>reset\<close> and \<^verbatim>\<open>parseBytes\<close> in three copies with the same
  text; the oldest file, \<^verbatim>\<open>main.go\<close>, has the same statements inside its HTTP handlers. A nil slice
  and an empty slice are both the empty list: the code reads slabs through \<^verbatim>\<open>len\<close>,
  \<^verbatim>\<open>copy\<close> and \<^verbatim>\<open>range\<close> only, which do not tell them apart.

  Go's \<^verbatim>\<open>int\<close> is modelled as \<open>int\<close>. The arithmetic of \<^verbatim>\<open>release\<close> cannot
  overflow: \<^verbatim>\<open>rem -= l\<close> runs under \<^verbatim>\<open>rem >= l\<close> with \<^verbatim>\<open>l >= 0\<close>,
  \<^verbatim>\<open>len(head)-rem\<close> under \<^verbatim>\<open>0 < rem < len(head)\<close>, and \<^verbatim>\<open>bytes - rem\<close> has
  \<^verbatim>\<open>rem\<close> between 0 and \<^verbatim>\<open>bytes\<close>, or equal to a negative \<^verbatim>\<open>bytes\<close>.
  Allocation is taken to succeed for every length that \<^verbatim>\<open>make\<close> itself does not reject;
  whether the operating system grants the memory is outside the model.
\<close>

type_synonym byte = "8 word"
type_synonym slab = "byte list"
type_synonym store = "slab list"

datatype panic = MakesliceLenOutOfRange

text \<open>\<^verbatim>\<open>make([]byte, n)\<close> for an \<^verbatim>\<open>int\<close> length: zeroed. The Go runtime panics with
  \<^verbatim>\<open>makeslice: len out of range\<close> when the length is negative or above its constant
  \<^verbatim>\<open>maxAlloc\<close>, which is \<open>2 ^ 48\<close> on linux/amd64, the platform the Dockerfile builds for.\<close>

definition maxAlloc :: int where
  "maxAlloc = 2 ^ 48"

definition make_bytes :: "int \<Rightarrow> panic + slab" where
  "make_bytes n =
     (if n < 0 \<or> maxAlloc < n then Inl MakesliceLenOutOfRange else Inr (replicate (nat n) 0))"

text \<open>\<^verbatim>\<open>for j := range m { m[j] = v }\<close>, from index \<open>j\<close> on.\<close>

function range_fill :: "nat \<Rightarrow> byte \<Rightarrow> slab \<Rightarrow> slab" where
  "range_fill j v m = (if j < length m then range_fill (Suc j) v (m[j := v]) else m)"
  by pat_completeness auto
termination
  by (relation "measure (\<lambda>(j, v, m). length m - j)") auto

declare range_fill.simps [simp del]

text \<open>\<^verbatim>\<open>copy(dst, src)\<close>: the first \<open>min (len dst) (len src)\<close> bytes of \<open>src\<close> overwrite
  the start of \<open>dst\<close>.\<close>

definition copy_bytes :: "slab \<Rightarrow> slab \<Rightarrow> slab" where
  "copy_bytes dst src = (let n = min (length dst) (length src) in take n src @ drop n dst)"

text \<open>\<^verbatim>\<open>func add(bytes int)\<close>.\<close>

definition add :: "int \<Rightarrow> store \<Rightarrow> panic + store" where
  "add bytes data =
     (case make_bytes bytes of
        Inl p \<Rightarrow> Inl p
      | Inr m \<Rightarrow> Inr (data @ [range_fill 0 1 m]))"

text \<open>The loop of \<^verbatim>\<open>func release(bytes int)\<close>, with its index \<open>i\<close> and the amount
  \<open>rem\<close> still to release. A released slab is overwritten with nil; its slot stays in
  \<^verbatim>\<open>data\<close>.\<close>

function release_loop :: "nat \<Rightarrow> int \<Rightarrow> store \<Rightarrow> (panic \<times> store) + (int \<times> store)" where
  "release_loop i rem data =
     (if i < length data \<and> 0 < rem then
        (let head = data ! i; l = int (length head) in
         if l \<le> rem then release_loop (Suc i) (rem - l) (data[i := []])
         else (case make_bytes (int (length head) - rem) of
                 Inl p \<Rightarrow> Inl (p, data)
               | Inr slice' \<Rightarrow> release_loop (Suc i) 0 (data[i := copy_bytes slice' head])))
      else Inr (rem, data))"
  by pat_completeness auto
termination
  by (relation "measure (\<lambda>(i, rem, data). length data - i)") auto

declare release_loop.simps [simp del]

text \<open>\<^verbatim>\<open>release\<close> returns \<^verbatim>\<open>(released, notReleased)\<close>; the model returns them with the
  new value of \<^verbatim>\<open>data\<close>. A panic inside the loop would leave \<^verbatim>\<open>data\<close> as the loop had
  it, so the panic branch carries that value.\<close>

definition release :: "int \<Rightarrow> store \<Rightarrow> (panic \<times> store) + ((int \<times> int) \<times> store)" where
  "release bytes data =
     (case release_loop 0 bytes data of
        Inl pd \<Rightarrow> Inl pd
      | Inr (rem, data') \<Rightarrow> Inr ((bytes - rem, rem), data'))"

text \<open>\<^verbatim>\<open>func reset\<close> sets \<^verbatim>\<open>data = nil\<close>; the collection it requests and the statistics
  it prints do not touch \<^verbatim>\<open>data\<close>.\<close>

definition reset :: "store \<Rightarrow> store" where
  "reset data = []"

text \<open>Modelled from the spec: \<^verbatim>\<open>totalBytes()\<close> has no function in the source; the spec
  defines it as the sum of the current slab lengths.\<close>

definition totalBytes :: "store \<Rightarrow> int" where
  "totalBytes data = int (sum_list (map length data))"

section \<open>The interactive control surface\<close>

text \<open>
  \<^verbatim>\<open>strconv.Atoi\<close> belongs to Go's standard library, not to this repository. The model
  follows its documented behaviour (\<^verbatim>\<open>ParseInt(s, 10, 0)\<close> on a 64-bit platform): an
  optional sign, then one or more decimal digits; \<^verbatim>\<open>ErrSyntax\<close> for an empty string or
  an invalid digit, \<^verbatim>\<open>ErrRange\<close> for a value outside the \<^verbatim>\<open>int\<close> range.
\<close>

datatype num_error = ErrSyntax | ErrRange

definition digit_val :: "char \<Rightarrow> nat option" where
  "digit_val c = (let n = (of_char c :: nat) in if 48 \<le> n \<and> n \<le> 57 then Some (n - 48) else None)"

fun parse_digits :: "nat \<Rightarrow> string \<Rightarrow> num_error + nat" where
  "parse_digits n [] = Inr n"
| "parse_digits n (c # cs) =
     (case digit_val c of
        None \<Rightarrow> Inl ErrSyntax
      | Some d \<Rightarrow> if 2 ^ 64 \<le> n * 10 + d then Inl ErrRange else parse_digits (n * 10 + d) cs)"

definition Atoi :: "string \<Rightarrow> num_error + int" where
  "Atoi s =
     (case s of
        [] \<Rightarrow> Inl ErrSyntax
      | c # cs \<Rightarrow>
          (let neg = (c = CHR ''-'');
               ds = (if c = CHR ''-'' \<or> c = CHR ''+'' then cs else s)
           in if ds = [] then Inl ErrSyntax
              else (case parse_digits 0 ds of
                      Inl e \<Rightarrow> Inl e
                    | Inr un \<Rightarrow>
                        if \<not> neg \<and> 2 ^ 63 \<le> un then Inl ErrRange
                        else if neg \<and> 2 ^ 63 < un then Inl ErrRange
                        else Inr (if neg then - int un else int un))))"

text \<open>A request is read through \<^verbatim>\<open>r.URL.Query()\<close> only, a map from parameter names to
  their values.\<close>

type_synonym request = "string \<rightharpoonup> string list"

datatype parse_error = InvalidBytesParam | NumError num_error

text \<open>\<^verbatim>\<open>func parseBytes(r *http.Request) (int, error)\<close>. With an error the source
  returns \<^verbatim>\<open>-1\<close> beside it, which no caller reads.\<close>

definition parseBytes :: "request \<Rightarrow> parse_error + int" where
  "parseBytes r =
     (case r ''bytes'' of
        None \<Rightarrow> Inl InvalidBytesParam
      | Some [] \<Rightarrow> Inl InvalidBytesParam
      | Some (b # bs) \<Rightarrow>
          (case Atoi b of Inl err \<Rightarrow> Inl (NumError err) | Inr bytes \<Rightarrow> Inr bytes))"

text \<open>What a handler of \<^verbatim>\<open>interactiveMode\<close> does with a request: \<^verbatim>\<open>http.Error\<close> with
  \<^verbatim>\<open>StatusBadRequest\<close>, the lines \<^verbatim>\<open>added:\<close> or \<^verbatim>\<open>released:\<close> and
  \<^verbatim>\<open>not released:\<close>, or a panic inside the handler. The memory statistics that follow
  come from the runtime and are left out.\<close>

datatype reply = BadRequest parse_error | Added int | Released int int | HandlerPanic panic

definition handle_add :: "request \<Rightarrow> store \<Rightarrow> reply \<times> store" where
  "handle_add r data =
     (case parseBytes r of
        Inl err \<Rightarrow> (BadRequest err, data)
      | Inr bytes \<Rightarrow>
          (case add bytes data of
             Inl p \<Rightarrow> (HandlerPanic p, data)
           | Inr data' \<Rightarrow> (Added bytes, data')))"

definition handle_rel :: "request \<Rightarrow> store \<Rightarrow> reply \<times> store" where
  "handle_rel r data =
     (case parseBytes r of
        Inl err \<Rightarrow> (BadRequest err, data)
      | Inr bytes \<Rightarrow>
          (case release bytes data of
             Inl (p, data') \<Rightarrow> (HandlerPanic p, data')
           | Inr ((released, notReleased), data') \<Rightarrow> (Released released notReleased, data')))"

text \<open>The decimal numeral of a number, as a client writes it in the query and as Go's
  \<^verbatim>\<open>strconv.Itoa\<close> prints it; used to state which amounts pass \<^verbatim>\<open>parseBytes\<close>.\<close>

function decimal :: "nat \<Rightarrow> string" where
  "decimal n = (if n < 10 then [char_of (48 + n)] else decimal (n div 10) @ [char_of (48 + n mod 10)])"
  by pat_completeness auto
termination
  by (relation "measure id") auto

declare decimal.simps [simp del]

definition Itoa :: "int \<Rightarrow> string" where
  "Itoa n = (if n < 0 then CHR ''-'' # decimal (nat (- n)) else decimal (nat n))"

section \<open>The scripted mode\<close>

text \<open>
  \<^verbatim>\<open>reserved = uint64(float64(*limit) * 0.10)\<close> is computed in binary floating point.
  A finite float64 has a significand of 53 bits and rounds to nearest, ties to even;
  \<open>round53 n\<close> is the natural number nearest to \<open>n\<close> with at most 53 significant bits.
  \<^verbatim>\<open>float64(*limit)\<close> is \<open>round53\<close> of the limit's magnitude. The constant \<^verbatim>\<open>0.10\<close> becomes
  the float64 nearest to one tenth, \<open>3602879701896397 / 2 ^ 55\<close>, so the product is
  \<open>round53\<close> of the integer product, over \<open>2 ^ 55\<close> (scaling by a power of two commutes
  with the rounding; the magnitudes here are far from the subnormal and the infinite).
  The conversion to \<^verbatim>\<open>uint64\<close> truncates towards zero. For a negative product of magnitude
  1 or more Go leaves the result to the implementation; the model takes the amd64
  compiler's, the two's complement of the truncated value.
\<close>

text \<open>The number of bits of a natural number: 0 for 0, \<open>k + 1\<close> from \<open>2 ^ k\<close> up to
  \<open>2 ^ (k + 1) - 1\<close>.\<close>

function bit_length :: "nat \<Rightarrow> nat" where
  "bit_length n = (if n = 0 then 0 else Suc (bit_length (n div 2)))"
  by pat_completeness auto
termination
  by (relation "measure id") auto

declare bit_length.simps [simp del]

text \<open>\<open>round_even n s\<close> is \<open>n / 2 ^ s\<close> rounded to the nearest integer, ties to even.\<close>

definition round_even :: "nat \<Rightarrow> nat \<Rightarrow> nat" where
  "round_even n s =
     (let q = n div 2 ^ s; r = n mod 2 ^ s
      in if 2 ^ s < 2 * r \<or> (2 * r = 2 ^ s \<and> odd q) then q + 1 else q)"

definition round53 :: "nat \<Rightarrow> nat" where
  "round53 n = (let s = bit_length n - 53 in round_even n s * 2 ^ s)"

definition float64_tenth :: nat where
  "float64_tenth = 3602879701896397"

definition reserved_of :: "64 word \<Rightarrow> 64 word" where
  "reserved_of limit =
     (let l = sint limit;
          f = round53 (nat \<bar>l\<bar>);
          p = round53 (f * float64_tenth);
          t = p div 2 ^ 55
      in if 0 \<le> l then word_of_nat t else - word_of_nat t)"

record plan =
  reserved :: "64 word"
  available :: "64 word"
  fill :: "64 word"

text \<open>The three variables of \<^verbatim>\<open>main\<close>, from the flag \<^verbatim>\<open>*limit\<close> (an \<^verbatim>\<open>int64\<close>) and the
  reading \<^verbatim>\<open>stats.HeapAlloc\<close> (a \<^verbatim>\<open>uint64\<close>). \<^verbatim>\<open>uint64(*limit)\<close> keeps the bits, and
  the subtractions wrap.\<close>

definition compute_plan :: "64 word \<Rightarrow> 64 word \<Rightarrow> plan" where
  "compute_plan limit heapAlloc =
     (let r = reserved_of limit;
          a = limit - heapAlloc;
          f = a - r
      in \<lparr>reserved = r, available = a, fill = f\<rparr>)"

text \<open>The closure of \<^verbatim>\<open>main\<close> that builds a slab: \<^verbatim>\<open>make([]byte, n)\<close> with a \<^verbatim>\<open>uint64\<close>
  length, which the runtime reads as an \<^verbatim>\<open>int\<close>, then every byte set to \<^verbatim>\<open>0xff\<close>.\<close>

definition main_slab :: "64 word \<Rightarrow> panic + slab" where
  "main_slab n =
     (case make_bytes (sint n) of
        Inl p \<Rightarrow> Inl p
      | Inr slab \<Rightarrow> Inr (range_fill 0 255 slab))"

text \<open>\<^verbatim>\<open>main\<close> after the mode selection, on the empty \<^verbatim>\<open>data\<close> of a fresh process: the
  plan, the spike, \<^verbatim>\<open>data = nil\<close>, the collection if \<^verbatim>\<open>-gc\<close> is set (it does not touch
  \<^verbatim>\<open>data\<close>), and the second slab.\<close>

definition scripted :: "64 word \<Rightarrow> 64 word \<Rightarrow> bool \<Rightarrow> panic + store" where
  "scripted limit heapAlloc gc =
     (let p = compute_plan limit heapAlloc in
      case main_slab (fill p) of
        Inl e \<Rightarrow> Inl e
      | Inr spike \<Rightarrow>
          (let data1 = [] @ [spike];
               data2 = []
           in case main_slab (reserved p) of
                Inl e \<Rightarrow> Inl e
              | Inr slab \<Rightarrow> Inr (data2 @ [slab])))"

text \<open>The plan as the spec words it, with the guard the spec asks for: a configuration
  error when the baseline exceeds the ceiling or the reserve exceeds what is available.\<close>

datatype config_error = ConfigurationError

definition spec_guarded_plan :: "64 word \<Rightarrow> 64 word \<Rightarrow> config_error + plan" where
  "spec_guarded_plan limit heapAlloc =
     (if sint limit < uint heapAlloc \<or> sint limit - uint heapAlloc < uint (reserved_of limit)
      then Inl ConfigurationError
      else Inr (compute_plan limit heapAlloc))"

section \<open>Views used in the proofs\<close>

text \<open>What the loop of \<^verbatim>\<open>release\<close> does to the slabs it has not visited yet, by
  recursion on that list: the amount left over and the slabs afterwards. Lemma
  \<open>release_loop_walk\<close> shows that the loop computes exactly this.\<close>

fun walk :: "int \<Rightarrow> store \<Rightarrow> int \<times> store" where
  "walk rem [] = (rem, [])"
| "walk rem (head # rest) =
     (if 0 < rem then
        (if int (length head) \<le> rem
         then (case walk (rem - int (length head)) rest of (r, d) \<Rightarrow> (r, [] # d))
         else (0, take (length head - nat rem) head # rest))
      else (rem, head # rest))"

text \<open>Whether the \<^verbatim>\<open>make\<close> of the loop, if the walk comes to it, stays within
  \<^verbatim>\<open>maxAlloc\<close>.\<close>

fun cut_ok :: "int \<Rightarrow> store \<Rightarrow> bool" where
  "cut_ok rem [] = True"
| "cut_ok rem (head # rest) =
     (if 0 < rem then
        (if int (length head) \<le> rem then cut_ok (rem - int (length head)) rest
         else int (length head) - rem \<le> maxAlloc)
      else True)"

text \<open>A store that a Go program can hold: no slab is longer than the largest allocation.\<close>

definition store_ok :: "store \<Rightarrow> bool" where
  "store_ok data = (\<forall>s\<in>set data. int (length s) \<le> maxAlloc)"

text \<open>A sequence of \<^verbatim>\<open>add\<close> calls, stopping at the first panic.\<close>

fun add_all :: "int list \<Rightarrow> store \<Rightarrow> panic + store" where
  "add_all [] data = Inr data"
| "add_all (n # ns) data = (case add n data of Inl p \<Rightarrow> Inl p | Inr data' \<Rightarrow> add_all ns data')"



section \<open>The store with its backing arrays\<close>

text \<open>
  A list of bytes has no identity, so whether a slab is a new allocation shows only in
  a model that keeps the backing arrays apart from the slices that refer to them. The
  heap is the list of all arrays allocated so far, the address of an array is its
  index, and \<^verbatim>\<open>make\<close> appends a new array. Every slice in \<^verbatim>\<open>data\<close> is nil or the whole
  of one array, as \<^verbatim>\<open>make\<close> returned it, so an entry of \<^verbatim>\<open>data\<close> is \<open>None\<close> or the address
  of its array. Arrays that nothing refers to any more stay in the list: collecting
  them is the runtime's work.
\<close>

type_synonym addr = nat

record heap_state =
  arrays :: "slab list"
  refs :: "addr option list"

definition bytes_at :: "slab list \<Rightarrow> addr option \<Rightarrow> slab" where
  "bytes_at ars r =
     (case r of None \<Rightarrow> [] | Some a \<Rightarrow> if a < length ars then ars ! a else [])"

text \<open>The value of \<^verbatim>\<open>data\<close> that a heap state stands for.\<close>

definition store_of :: "heap_state \<Rightarrow> store" where
  "store_of h = map (bytes_at (arrays h)) (refs h)"

text \<open>Every slice of \<^verbatim>\<open>data\<close> refers to an allocated array.\<close>

definition heap_ok :: "heap_state \<Rightarrow> bool" where
  "heap_ok h = (\<forall>r\<in>set (refs h). case r of None \<Rightarrow> True | Some a \<Rightarrow> a < length (arrays h))"

definition heap_make :: "int \<Rightarrow> heap_state \<Rightarrow> panic + (addr \<times> heap_state)" where
  "heap_make n h =
     (case make_bytes n of
        Inl p \<Rightarrow> Inl p
      | Inr m \<Rightarrow> Inr (length (arrays h), h\<lparr>arrays := arrays h @ [m]\<rparr>))"

text \<open>The loop of \<^verbatim>\<open>release\<close> once more, on the heap: \<^verbatim>\<open>data[i] = nil\<close> drops the
  reference, \<^verbatim>\<open>make\<close> allocates, and \<^verbatim>\<open>copy(slice, head)\<close> writes into the new array.\<close>

function heap_release_loop :: "nat \<Rightarrow> int \<Rightarrow> heap_state \<Rightarrow> (panic \<times> heap_state) + (int \<times> heap_state)" where
  "heap_release_loop i rem h =
     (if i < length (refs h) \<and> 0 < rem then
        (let head = refs h ! i; l = int (length (bytes_at (arrays h) head)) in
         if l \<le> rem then heap_release_loop (Suc i) (rem - l) (h\<lparr>refs := (refs h)[i := None]\<rparr>)
         else (case heap_make (l - rem) h of
                 Inl p \<Rightarrow> Inl (p, h)
               | Inr (a, h1) \<Rightarrow>
                   heap_release_loop (Suc i) 0
                     (h1\<lparr>arrays := (arrays h1)
                                     [a := copy_bytes (arrays h1 ! a) (bytes_at (arrays h1) head)],
                         refs := (refs h1)[i := Some a]\<rparr>)))
      else Inr (rem, h))"
  by pat_completeness auto
termination
  by (relation "measure (\<lambda>(i, rem, h). length (refs h) - i)")
    (auto simp: heap_make_def split: sum.splits)

declare heap_release_loop.simps [simp del]

definition heap_release :: "int \<Rightarrow> heap_state \<Rightarrow> (panic \<times> heap_state) + ((int \<times> int) \<times> heap_state)" where
  "heap_release bytes h =
     (case heap_release_loop 0 bytes h of
        Inl ph \<Rightarrow> Inl ph
      | Inr (rem, h') \<Rightarrow> Inr ((bytes - rem, rem), h'))"

text \<open>The heap loop by recursion on the references it has not visited yet: the amount
  left over, the arrays and the references afterwards. Lemma \<open>heap_release_loop_walk\<close>
  ties it to the loop.\<close>

fun heap_walk :: "slab list \<Rightarrow> int \<Rightarrow> addr option list \<Rightarrow> int \<times> slab list \<times> addr option list" where
  "heap_walk ars rem [] = (rem, ars, [])"
| "heap_walk ars rem (r # rs) =
     (if 0 < rem then
        (if int (length (bytes_at ars r)) \<le> rem
         then (case heap_walk ars (rem - int (length (bytes_at ars r))) rs of
                 (x, ars', rs') \<Rightarrow> (x, ars', None # rs'))
         else (0, ars @ [take (length (bytes_at ars r) - nat rem) (bytes_at ars r)],
               Some (length ars) # rs))
      else (rem, ars, r # rs))"

section \<open>The loops in closed form\<close>

text \<open>The fill loop writes every byte; the loop of \<^verbatim>\<open>release\<close> is the walk over the
  slabs from its index on, as long as its \<^verbatim>\<open>make\<close> stays within \<^verbatim>\<open>maxAlloc\<close>.\<close>

lemma range_fill_from: "range_fill j v m = take j m @ replicate (length m - j) v"
proof (induction j v m rule: range_fill.induct)
  case (1 j v m)
  show ?case
  proof (cases "j < length m")
    case True
    have "range_fill j v m = range_fill (Suc j) v (m[j := v])"
      using True by (subst range_fill.simps) simp
    also have "\<dots> = take (Suc j) (m[j := v]) @ replicate (length m - Suc j) v"
      using 1 [OF True] by simp
    also have "take (Suc j) (m[j := v]) = take j m @ [v]"
      using True by (simp add: take_Suc_conv_app_nth)
    also have "(take j m @ [v]) @ replicate (length m - Suc j) v = take j m @ replicate (length m - j) v"
    proof -
      have "length m - j = Suc (length m - Suc j)" using True by simp
      then show ?thesis by simp
    qed
    finally show ?thesis .
  next
    case False
    then show ?thesis by (subst range_fill.simps) simp
  qed
qed

lemma range_fill_all: "range_fill 0 v m = replicate (length m) v"
  by (simp add: range_fill_from)

lemma add_nonneg:
  "0 \<le> n \<Longrightarrow> n \<le> maxAlloc \<Longrightarrow> add n data = Inr (data @ [replicate (nat n) 1])"
  by (simp add: add_def make_bytes_def range_fill_all)

lemma add_beyond: "maxAlloc < n \<Longrightarrow> add n data = Inl MakesliceLenOutOfRange"
  by (simp add: add_def make_bytes_def)

lemma cut_ok_nonpos: "rem \<le> 0 \<Longrightarrow> cut_ok rem data"
  by (cases data) auto

lemma cut_ok_store_ok: "store_ok data \<Longrightarrow> cut_ok rem data"
proof (induction data arbitrary: rem)
  case Nil
  show ?case by simp
next
  case (Cons s d)
  then have "int (length s) \<le> maxAlloc" "store_ok d" by (simp_all add: store_ok_def)
  with Cons.IH show ?case by auto
qed

lemma add_neg: "n < 0 \<Longrightarrow> add n data = Inl MakesliceLenOutOfRange"
  by (simp add: add_def make_bytes_def)

lemma walk_nonpos: "rem \<le> 0 \<Longrightarrow> walk rem data = (rem, data)"
  by (cases data) auto

lemma copy_into_fresh: "n \<le> length src \<Longrightarrow> copy_bytes (replicate n 0) src = take n src"
  by (simp add: copy_bytes_def min_def)

lemma release_loop_walk:
  "i \<le> length data \<Longrightarrow> cut_ok rem (drop i data) \<Longrightarrow>
   release_loop i rem data =
     Inr (fst (walk rem (drop i data)), take i data @ snd (walk rem (drop i data)))"
proof (induction i rem data rule: release_loop.induct)
  case (1 i rem data)
  show ?case
  proof (cases "i < length data \<and> 0 < rem")
    case False
    then have "walk rem (drop i data) = (rem, drop i data)"
      using "1.prems"(1) by (cases "0 < rem") (auto simp: walk_nonpos)
    moreover have "release_loop i rem data = Inr (rem, data)"
      by (subst release_loop.simps) (simp only: False if_False)
    ultimately show ?thesis by simp
  next
    case True
    define head where "head = data ! i"
    define l where "l = int (length head)"
    have dr: "drop i data = head # drop (Suc i) data"
      using True by (simp add: head_def Cons_nth_drop_Suc)
    show ?thesis
    proof (cases "l \<le> rem")
      case le: True
      have "release_loop i rem data = release_loop (Suc i) (rem - l) (data[i := []])"
        using True le by (subst release_loop.simps) (simp add: head_def l_def Let_def)
      also have "\<dots> = Inr (fst (walk (rem - l) (drop (Suc i) (data[i := []]))),
            take (Suc i) (data[i := []]) @ snd (walk (rem - l) (drop (Suc i) (data[i := []]))))"
      proof (rule "1.IH"(1) [OF True head_def l_def le])
        show "Suc i \<le> length (data[i := []])" using True by simp
        show "cut_ok (rem - l) (drop (Suc i) (data[i := []]))"
          using "1.prems"(2) True le by (simp add: dr l_def)
      qed
      also have "drop (Suc i) (data[i := []]) = drop (Suc i) data" by simp
      also have "take (Suc i) (data[i := []]) = take i data @ [[]]"
        using True by (simp add: take_Suc_conv_app_nth)
      finally show ?thesis
        using True le by (simp add: dr l_def split: prod.splits)
    next
      case gt: False
      define n where "n = length head - nat rem"
      have "l - rem \<le> maxAlloc"
        using "1.prems"(2) True gt by (simp add: dr l_def)
      then have mk: "make_bytes (l - rem) = Inr (replicate n 0)"
        using gt True by (simp add: make_bytes_def l_def n_def nat_diff_distrib')
      have cp: "copy_bytes (replicate n 0) head = take n head"
        by (rule copy_into_fresh) (simp add: n_def)
      have "release_loop i rem data = release_loop (Suc i) 0 (data[i := take n head])"
        using True gt by (subst release_loop.simps) (simp add: head_def [symmetric] l_def [symmetric] mk cp Let_def)
      also have "\<dots> = Inr (0, data[i := take n head])"
        by (subst release_loop.simps) simp
      also have "data[i := take n head] = take i data @ take n head # drop (Suc i) data"
        using True by (simp add: upd_conv_take_nth_drop)
      finally show ?thesis
        using True gt by (simp add: dr l_def n_def)
    qed
  qed
qed

lemma release_walk:
  "cut_ok bytes data \<Longrightarrow>
   release bytes data = Inr ((bytes - fst (walk bytes data), fst (walk bytes data)), snd (walk bytes data))"
  by (simp add: release_def release_loop_walk split: prod.splits)

lemma release_nonpos: "amount \<le> 0 \<Longrightarrow> release amount data = Inr ((0, amount), data)"
  by (simp add: release_walk walk_nonpos cut_ok_nonpos)

lemma release_returns:
  "store_ok data \<Longrightarrow>
   \<exists>released shortfall data'. release n data = Inr ((released, shortfall), data')"
  by (simp add: release_walk cut_ok_store_ok)

section \<open>Bytes held by the store\<close>

lemma totalBytes_Cons: "totalBytes (s # d) = int (length s) + totalBytes d"
  by (simp add: totalBytes_def)

lemma totalBytes_Nil: "totalBytes [] = 0"
  by (simp add: totalBytes_def)

lemma totalBytes_append: "totalBytes (d @ e) = totalBytes d + totalBytes e"
  by (simp add: totalBytes_def)

lemma totalBytes_nonneg: "0 \<le> totalBytes d"
  by (simp add: totalBytes_def)

lemma totalBytes_nils: "totalBytes (replicate n []) = 0"
  by (induction n) (simp_all add: totalBytes_Nil totalBytes_Cons)

lemma totalBytes_zero_nils: "totalBytes d = 0 \<Longrightarrow> d = replicate (length d) []"
proof (induction d)
  case Nil
  show ?case by simp
next
  case (Cons s d)
  have "0 \<le> totalBytes d" by (rule totalBytes_nonneg)
  moreover have "0 \<le> int (length s)" by simp
  moreover have "int (length s) + totalBytes d = 0"
    using Cons.prems by (simp add: totalBytes_Cons)
  ultimately have "int (length s) = 0" "totalBytes d = 0"
    by linarith+
  with Cons.IH show ?case by simp
qed

lemma walk_shortfall: "0 \<le> rem \<Longrightarrow> fst (walk rem d) = max 0 (rem - totalBytes d)"
proof (induction d arbitrary: rem)
  case Nil
  then show ?case by (simp add: totalBytes_Nil)
next
  case (Cons s d)
  have nn: "0 \<le> totalBytes d" by (rule totalBytes_nonneg)
  show ?case
  proof (cases "0 < rem \<and> int (length s) \<le> rem")
    case True
    then have "fst (walk rem (s # d)) = fst (walk (rem - int (length s)) d)"
      by (simp split: prod.splits)
    also have "\<dots> = max 0 (rem - int (length s) - totalBytes d)"
      using True by (intro Cons.IH) simp
    finally show ?thesis by (simp add: totalBytes_Cons algebra_simps)
  next
    case False
    with Cons.prems nn show ?thesis by (auto simp: totalBytes_Cons)
  qed
qed

lemma walk_total:
  "0 \<le> rem \<Longrightarrow> totalBytes (snd (walk rem d)) = totalBytes d - (rem - fst (walk rem d))"
proof (induction d arbitrary: rem)
  case Nil
  then show ?case by (simp add: totalBytes_Nil)
next
  case (Cons s d)
  show ?case
  proof (cases "0 < rem \<and> int (length s) \<le> rem")
    case True
    then have "0 \<le> rem - int (length s)" by simp
    from Cons.IH [OF this] True show ?thesis
      by (cases "walk (rem - int (length s)) d") (simp add: totalBytes_Cons)
  next
    case False
    with Cons.prems show ?thesis by (auto simp: totalBytes_Cons)
  qed
qed

lemma walk_everything:
  "totalBytes d \<le> rem \<Longrightarrow> snd (walk rem d) = replicate (length d) []"
proof (induction d arbitrary: rem)
  case Nil
  show ?case by simp
next
  case (Cons s d)
  have nn: "0 \<le> totalBytes d" by (rule totalBytes_nonneg)
  show ?case
  proof (cases "0 < rem")
    case True
    from Cons.prems have le: "int (length s) \<le> rem" "totalBytes d \<le> rem - int (length s)"
      using nn by (simp_all add: totalBytes_Cons)
    from Cons.IH [OF le(2)] True le(1) show ?thesis
      by (cases "walk (rem - int (length s)) d") simp
  next
    case False
    with Cons.prems nn have "totalBytes (s # d) = 0"
      using totalBytes_nonneg [of "s # d"] by simp
    from totalBytes_zero_nils [OF this] False show ?thesis
      by (simp add: walk_nonpos)
  qed
qed


lemma cut_ok_everything: "totalBytes d \<le> rem \<Longrightarrow> cut_ok rem d"
proof (induction d arbitrary: rem)
  case Nil
  show ?case by simp
next
  case (Cons s d)
  have nn: "0 \<le> totalBytes d" by (rule totalBytes_nonneg)
  from Cons.prems nn have le: "int (length s) \<le> rem" "totalBytes d \<le> rem - int (length s)"
    by (simp_all add: totalBytes_Cons)
  from Cons.IH [OF le(2)] le(1) show ?case by simp
qed

lemma release_everything:
  "totalBytes data \<le> amount \<Longrightarrow>
   release amount data =
     Inr ((totalBytes data, amount - totalBytes data), replicate (length data) [])"
  using totalBytes_nonneg [of data]
  by (simp add: release_walk cut_ok_everything walk_shortfall walk_everything)

lemma add_all_total:
  "\<forall>n\<in>set ns. 0 \<le> n \<and> n \<le> maxAlloc \<Longrightarrow>
   \<exists>data'. add_all ns data = Inr data' \<and> totalBytes data' = totalBytes data + sum_list ns"
proof (induction ns arbitrary: data)
  case Nil
  show ?case by simp
next
  case (Cons n ns)
  then have n: "0 \<le> n" "n \<le> maxAlloc" and ns: "\<forall>n\<in>set ns. 0 \<le> n \<and> n \<le> maxAlloc"
    by simp_all
  from Cons.IH [OF ns, of "data @ [replicate (nat n) 1]"] n show ?case
    by (auto simp: add_nonneg totalBytes_append totalBytes_Cons totalBytes_Nil)
qed

lemma store_cycle:
  assumes "0 \<le> f" "0 \<le> r" "f \<le> maxAlloc" "r \<le> maxAlloc"
  shows "\<exists>d1 d2 d3. add f [] = Inr d1 \<and> release f d1 = Inr ((f, 0), d2) \<and> totalBytes d2 = 0 \<and>
           add r d2 = Inr d3 \<and> totalBytes d3 = r"
proof -
  define d1 :: store where "d1 = [replicate (nat f) 1]"
  have t1: "totalBytes d1 = f" using assms(1) by (simp add: d1_def totalBytes_def)
  have a1: "add f [] = Inr d1" using assms(1,3) by (simp add: add_nonneg d1_def)
  have "release f d1 = Inr ((totalBytes d1, f - totalBytes d1), replicate (length d1) [])"
    by (rule release_everything) (simp add: t1)
  then have r1: "release f d1 = Inr ((f, 0), [[]])" by (simp add: t1) (simp add: d1_def)
  have a2: "add r [[]] = Inr ([[]] @ [replicate (nat r) 1])" using assms(2,4) by (rule add_nonneg)
  have t3: "totalBytes ([[]] @ [replicate (nat r) 1]) = r"
    using assms(2) by (simp add: totalBytes_def)
  have t2: "totalBytes [[]] = 0" by (simp add: totalBytes_def)
  from a1 r1 t2 a2 t3 show ?thesis by blast
qed

section \<open>Signed and unsigned readings of 64-bit words\<close>

lemma wrap_half:
  fixes k h :: int
  assumes "0 \<le> k" "k < 2 * h"
  shows "(k + h) mod (2 * h) - h = (if k < h then k else k - 2 * h)"
proof (cases "k < h")
  case True
  with assms have "(k + h) mod (2 * h) = k + h"
    by (intro mod_pos_pos_trivial) simp_all
  with True show ?thesis by simp
next
  case False
  have "(k + h) mod (2 * h) = (k - h + 2 * h) mod (2 * h)"
    by (simp add: algebra_simps)
  also have "\<dots> = (k - h) mod (2 * h)"
    by (rule mod_add_self2)
  also have "\<dots> = k - h"
    using assms False by (intro mod_pos_pos_trivial) simp_all
  finally show ?thesis using False by simp
qed

lemma sint64: "sint (w :: 64 word) = (if uint w < 2 ^ 63 then uint w else uint w - 2 ^ 64)"
proof -
  have b: "0 \<le> uint w" "uint w < 2 * 2 ^ 63"
    using uint_lt2p [of w] by simp_all
  have "sint w = (uint w + 2 ^ 63) mod (2 * 2 ^ 63) - 2 ^ 63"
    by (simp add: sint_uint signed_take_bit_eq_take_bit_shift take_bit_eq_mod)
  also have "\<dots> = (if uint w < 2 ^ 63 then uint w else uint w - 2 * 2 ^ 63)"
    using b by (rule wrap_half)
  finally show ?thesis by simp
qed

lemma sint64_nonneg: "0 \<le> sint (w :: 64 word) \<Longrightarrow> sint w = uint w \<and> uint w < 2 ^ 63"
  using uint_lt2p [of w] by (simp add: sint64 split: if_splits)

lemma sint64_neg: "sint (w :: 64 word) < 0 \<longleftrightarrow> 2 ^ 63 \<le> uint w"
  using uint_lt2p [of w] by (simp add: sint64 split: if_splits)

lemma sint_of_nat64: "n < 2 ^ 63 \<Longrightarrow> sint (word_of_nat n :: 64 word) = int n"
proof -
  assume n: "n < 2 ^ 63"
  then have "n < 2 ^ 64" by (rule order.strict_trans2) simp
  then have "unat (word_of_nat n :: 64 word) = n"
    by (simp add: unat_of_nat)
  then have "uint (word_of_nat n :: 64 word) = int n"
    by (simp add: uint_nat)
  with n show ?thesis by (simp add: sint64)
qed

lemma unat_of_nat64: "n < 2 ^ 64 \<Longrightarrow> unat (word_of_nat n :: 64 word) = n"
  by (simp add: unat_of_nat)

lemma main_slab_nonneg:
  "0 \<le> sint w \<Longrightarrow> sint w \<le> maxAlloc \<Longrightarrow> main_slab w = Inr (replicate (unat w) 255)"
proof -
  assume nn: "0 \<le> sint w" and le: "sint w \<le> maxAlloc"
  from nn have "nat (sint w) = unat w" by (simp add: sint64_nonneg)
  with nn le show ?thesis
    by (simp add: main_slab_def make_bytes_def range_fill_all)
qed

lemma main_slab_beyond: "maxAlloc < sint w \<Longrightarrow> main_slab w = Inl MakesliceLenOutOfRange"
  by (simp add: main_slab_def make_bytes_def)

lemma main_slab_neg: "sint w < 0 \<Longrightarrow> main_slab w = Inl MakesliceLenOutOfRange"
  by (simp add: main_slab_def make_bytes_def)

lemma scripted_runs:
  assumes "0 \<le> sint (fill (compute_plan limit heapAlloc))"
    and "sint (fill (compute_plan limit heapAlloc)) \<le> maxAlloc"
    and "0 \<le> sint (reserved (compute_plan limit heapAlloc))"
    and "sint (reserved (compute_plan limit heapAlloc)) \<le> maxAlloc"
  shows "scripted limit heapAlloc gc =
           Inr [replicate (unat (reserved (compute_plan limit heapAlloc))) 255]"
  using assms by (simp add: scripted_def Let_def main_slab_nonneg)

section \<open>Decimal numerals and requests\<close>

lemma digit_val_char_of: "d < 10 \<Longrightarrow> digit_val (char_of (48 + d)) = Some (d::nat)"
  by (simp add: digit_val_def)

lemma parse_digits_snoc:
  "parse_digits a (ds @ [c]) =
     (case parse_digits a ds of
        Inl e \<Rightarrow> Inl e
      | Inr v \<Rightarrow> parse_digits v [c])"
  by (induction ds arbitrary: a) (simp_all split: option.splits)

lemma parse_digits_decimal: "n < 2 ^ 64 \<Longrightarrow> parse_digits 0 (decimal n) = Inr n"
proof (induction n rule: decimal.induct)
  case (1 n)
  show ?case
  proof (cases "n < 10")
    case True
    then have "decimal n = [char_of (48 + n)]" by (subst decimal.simps) simp
    with True "1.prems" show ?thesis by (simp add: digit_val_char_of)
  next
    case False
    then have d: "decimal n = decimal (n div 10) @ [char_of (48 + n mod 10)]"
      by (subst decimal.simps) simp
    have "n div 10 \<le> n" by simp
    then have "n div 10 < 2 ^ 64" using "1.prems" by (rule order.strict_trans1)
    from "1.IH" [OF False this] "1.prems" show ?thesis
      by (simp add: d parse_digits_snoc digit_val_char_of)
  qed
qed

lemma decimal_first: "\<exists>(d::nat) cs. d < 10 \<and> decimal n = char_of (48 + d) # cs"
proof (induction n rule: decimal.induct)
  case (1 n)
  show ?case
  proof (cases "n < 10")
    case True
    then have "decimal n = [char_of (48 + n)]" by (subst decimal.simps) simp
    with True show ?thesis by blast
  next
    case False
    then have d: "decimal n = decimal (n div 10) @ [char_of (48 + n mod 10)]"
      by (subst decimal.simps) simp
    from "1.IH" [OF False] obtain e :: nat and cs where "e < 10" "decimal (n div 10) = char_of (48 + e) # cs"
      by blast
    with d show ?thesis by auto
  qed
qed

lemma digit_char_no_sign: "(d::nat) < 10 \<Longrightarrow> (char_of (48 + d) :: char) \<noteq> CHR ''-'' \<and> (char_of (48 + d) :: char) \<noteq> CHR ''+''"
proof -
  assume "d < 10"
  then have "digit_val (char_of (48 + d)) = Some d" by (rule digit_val_char_of)
  moreover have "digit_val CHR ''-'' = None" "digit_val CHR ''+'' = None"
    by (simp_all add: digit_val_def)
  ultimately show ?thesis by auto
qed

lemma Atoi_Itoa: "- (2 ^ 63) \<le> n \<Longrightarrow> n < 2 ^ 63 \<Longrightarrow> Atoi (Itoa n) = Inr n"
proof (cases "n < 0")
  case True
  assume r: "- (2 ^ 63) \<le> n"
  define m where "m = nat (- n)"
  have m: "0 < m" "m \<le> 2 ^ 63" "n = - int m"
    using True r by (simp_all add: m_def nat_le_iff)
  then have "m < 2 ^ 64" by (simp add: order.strict_trans1)
  then have p: "parse_digits 0 (decimal m) = Inr m" by (rule parse_digits_decimal)
  obtain d :: nat and cs where "decimal m = char_of (48 + d) # cs" using decimal_first by blast
  then have ne: "decimal m \<noteq> []" by simp
  show ?thesis
    using True m ne p by (simp add: Itoa_def Atoi_def m_def [symmetric])
next
  case False
  assume r: "n < 2 ^ 63"
  define m where "m = nat n"
  have m: "m < 2 ^ 63" "n = int m"
    using False r by (simp_all add: m_def nat_less_iff)
  then have "m < 2 ^ 64" by (simp add: order.strict_trans2)
  then have p: "parse_digits 0 (decimal m) = Inr m" by (rule parse_digits_decimal)
  obtain d :: nat and cs where dc: "d < 10" "decimal m = char_of (48 + d) # cs" using decimal_first by blast
  from digit_char_no_sign [OF dc(1)] dc(2) p m False show ?thesis
    by (simp add: Itoa_def Atoi_def m_def [symmetric])
qed

lemma Atoi_minus_one: "Atoi ''-1'' = Inr (- 1)"
  by (simp add: Atoi_def digit_val_def)

lemma Itoa_minus_one: "Itoa (- 1) = ''-1''"
proof -
  have "of_char CHR ''1'' = (49::nat)" by simp
  then have "char_of (49::nat) = char_of (of_char CHR ''1'' :: nat)" by (simp only:)
  then have "char_of (49::nat) = CHR ''1''" by (simp only: char_of_char)
  then show ?thesis by (simp add: Itoa_def decimal.simps)
qed

lemma parseBytes_minus_one: "parseBytes [''bytes'' \<mapsto> [''-1'']] = Inr (- 1)"
  by (simp add: parseBytes_def Atoi_minus_one)

lemma parseBytes_Itoa:
  "- (2 ^ 63) \<le> n \<Longrightarrow> n < 2 ^ 63 \<Longrightarrow> parseBytes [''bytes'' \<mapsto> [Itoa n]] = Inr n"
  by (simp add: parseBytes_def Atoi_Itoa)

lemma parseBytes_Inl_iff:
  "(\<exists>e. parseBytes r = Inl e) \<longleftrightarrow>
   (r ''bytes'' = None \<or> r ''bytes'' = Some [] \<or>
    (\<exists>b bs e. r ''bytes'' = Some (b # bs) \<and> Atoi b = Inl e))"
  by (auto simp: parseBytes_def split: option.splits list.splits sum.splits)

lemma handle_add_negative:
  "parseBytes r = Inr n \<Longrightarrow> n < 0 \<Longrightarrow> handle_add r data = (HandlerPanic MakesliceLenOutOfRange, data)"
  by (simp add: handle_add_def add_neg)

section \<open>Rounding to 53 bits\<close>

text \<open>Below \<open>3 * 2 ^ 51\<close> the rounded product of a ceiling with the float64 tenth
  truncates to the tenth of the ceiling, rounded down; in general it stays below the
  ceiling.\<close>

lemma bit_length_less: "n < 2 ^ bit_length n"
proof (induction n rule: bit_length.induct)
  case (1 n)
  show ?case
  proof (cases "n = 0")
    case True
    then show ?thesis by (subst bit_length.simps) simp
  next
    case False
    from "1.IH" [OF False] have "n div 2 < 2 ^ bit_length (n div 2)" .
    then have "n < 2 * 2 ^ bit_length (n div 2)" by linarith
    with False show ?thesis by (subst bit_length.simps) simp
  qed
qed

lemma bit_length_ge: "0 < n \<Longrightarrow> 2 ^ (bit_length n - 1) \<le> n"
proof (induction n rule: bit_length.induct)
  case (1 n)
  then have n: "n \<noteq> 0" by simp
  have bl: "bit_length n = Suc (bit_length (n div 2))"
    using n by (subst bit_length.simps) simp
  show ?case
  proof (cases "n div 2 = 0")
    case True
    then have "bit_length (n div 2) = 0" by (subst bit_length.simps) simp
    with n show ?thesis by (simp add: bl)
  next
    case False
    then have "0 < n div 2" by simp
    from "1.IH" [OF n this] have h: "2 ^ (bit_length (n div 2) - 1) \<le> n div 2" .
    have "bit_length (n div 2) \<noteq> 0"
      using False by (subst bit_length.simps) simp
    then obtain k where k: "bit_length (n div 2) = Suc k" by (cases "bit_length (n div 2)") simp_all
    from h have "2 * 2 ^ k \<le> n" by (simp add: k)
    then show ?thesis by (simp add: bl k)
  qed
qed

lemma bit_length_le: "n < 2 ^ k \<Longrightarrow> bit_length n \<le> k"
proof (rule ccontr)
  assume n: "n < 2 ^ k" and "\<not> bit_length n \<le> k"
  then have k: "k \<le> bit_length n - 1" by simp
  have "0 < n"
  proof (rule ccontr)
    assume "\<not> 0 < n"
    then have "bit_length n = 0" by (subst bit_length.simps) simp
    with \<open>\<not> bit_length n \<le> k\<close> show False by simp
  qed
  then have "2 ^ (bit_length n - 1) \<le> n" by (rule bit_length_ge)
  moreover have "(2::nat) ^ k \<le> 2 ^ (bit_length n - 1)"
    using k by (rule power_increasing) simp
  ultimately show False using n by linarith
qed

lemma bit_length_eq: "2 ^ k \<le> n \<Longrightarrow> n < 2 ^ Suc k \<Longrightarrow> bit_length n = Suc k"
proof -
  assume a: "2 ^ k \<le> n" "n < 2 ^ Suc k"
  have "n < 2 ^ bit_length n" by (rule bit_length_less)
  with a(1) have "(2::nat) ^ k < 2 ^ bit_length n" by (rule order.strict_trans1)
  then have "k < bit_length n" by (simp only: power_strict_increasing_iff)
  moreover from a(2) have "bit_length n \<le> Suc k" by (rule bit_length_le)
  ultimately show ?thesis by simp
qed

lemma round_even_lower: "(n div 2 ^ s) * 2 ^ s \<le> round_even n s * 2 ^ s"
  by (simp add: round_even_def Let_def)

lemma round_even_upper: "2 * (round_even n s * 2 ^ s) \<le> 2 * n + 2 ^ s"
proof -
  define q where "q = n div 2 ^ s"
  define r where "r = n mod 2 ^ s"
  have n: "n = q * 2 ^ s + r"
    unfolding q_def r_def by (rule div_mult_mod_eq [symmetric])
  show ?thesis
  proof (cases "2 ^ s < 2 * r \<or> (2 * r = 2 ^ s \<and> odd q)")
    case True
    then have "round_even n s = q + 1"
      by (simp add: round_even_def Let_def q_def r_def)
    moreover from True have "2 ^ s \<le> 2 * r" by auto
    ultimately show ?thesis by (simp add: n algebra_simps)
  next
    case False
    then have "round_even n s = q"
      by (simp add: round_even_def Let_def q_def r_def)
    then show ?thesis by (simp add: n algebra_simps)
  qed
qed

lemma ten_tenths: "10 * float64_tenth = 2 ^ 55 + 2"
  by (simp add: float64_tenth_def)

lemma tenth_rounds_down:
  assumes L: "L < 3 * 2 ^ 51"
  shows "round53 (L * float64_tenth) div 2 ^ 55 = L div 10"
proof -
  define N where "N = L * float64_tenth"
  define q where "q = L div 10"
  define s where "s = bit_length N - 53"
  define R where "R = round_even N s * 2 ^ s"
  have R: "round53 N = R" by (simp add: round53_def s_def R_def Let_def)
  have N10: "10 * N = L * 2 ^ 55 + 2 * L"
    using ten_tenths by (simp add: N_def algebra_simps)
  have Lq: "10 * q \<le> L" "L \<le> 10 * q + 9"
    by (simp_all add: q_def) 
  have "10 * N < 10 * 2 ^ 105" using L by (simp add: N10)
  then have "N < 2 ^ 105" by simp
  then have "bit_length N \<le> 105" by (rule bit_length_le)
  then have s: "s \<le> 52" by (simp add: s_def)
  then have p2: "(2::nat) ^ s \<le> 2 ^ 52" by (rule power_increasing) simp
  have lowN: "q * 2 ^ 55 \<le> N"
  proof -
    have "10 * (q * 2 ^ 55) \<le> 10 * N" using Lq(1) by (simp add: N10)
    then show ?thesis by simp
  qed
  have e: "q * 2 ^ (55 - s) * 2 ^ s = q * 2 ^ 55"
    using s by (simp add: power_add [symmetric] mult.assoc)
  have "q * 2 ^ (55 - s) * 2 ^ s \<le> N"
    by (subst e) (rule lowN)
  then have "q * 2 ^ (55 - s) \<le> N div 2 ^ s"
    by (simp add: less_eq_div_iff_mult_less_eq)
  then have "q * 2 ^ (55 - s) * 2 ^ s \<le> (N div 2 ^ s) * 2 ^ s"
    by (rule mult_le_mono1)
  also have "\<dots> \<le> R" unfolding R_def by (rule round_even_lower)
  finally have "q * 2 ^ (55 - s) * 2 ^ s \<le> R" .
  then have low: "q * 2 ^ 55 \<le> R" by (simp only: e)
  have "2 * R \<le> 2 * N + 2 ^ s" unfolding R_def by (rule round_even_upper)
  with p2 have "2 * R \<le> 2 * N + 2 ^ 52" by simp
  then have "20 * R \<le> 2 * (10 * N) + 10 * 2 ^ 52" by simp
  also have "\<dots> = 2 * L * 2 ^ 55 + 4 * L + 10 * 2 ^ 52" by (simp add: N10)
  also have "\<dots> < 20 * ((q + 1) * 2 ^ 55)" using Lq(2) L by simp
  finally have up: "R < 2 ^ 55 * Suc q" by (simp add: algebra_simps)
  from low have "2 ^ 55 * q \<le> R" by (simp add: mult.commute)
  then have "R div 2 ^ 55 = q" using up by (rule div_nat_eqI)
  then show ?thesis unfolding R [symmetric] N_def q_def .
qed

lemma round53_small: "n < 2 ^ 53 \<Longrightarrow> round53 n = n"
proof -
  assume "n < 2 ^ 53"
  then have "bit_length n \<le> 53" by (rule bit_length_le)
  then show ?thesis by (simp add: round53_def round_even_def)
qed

lemma reserved_of_tenth:
  assumes "L < 3 * 2 ^ 51"
  shows "reserved_of (word_of_nat L) = word_of_nat (L div 10)"
proof -
  from assms have "L < 2 ^ 53" by simp
  then have r: "round53 L = L" by (rule round53_small)
  from assms have "L < 2 ^ 63" by simp
  then have "sint (word_of_nat L :: 64 word) = int L" by (rule sint_of_nat64)
  then show ?thesis
    using tenth_rounds_down [OF assms] by (simp add: reserved_of_def Let_def r)
qed

lemma reserved_of_first_excess: "reserved_of 6755399441055749 = 675539944105575"
proof -
  have s: "sint (6755399441055749 :: 64 word) = 6755399441055749" by simp
  have r: "round53 6755399441055749 = 6755399441055749"
    by (rule round53_small) simp
  have b: "bit_length 24338891524382023874215099236353 = Suc 104"
    by (rule bit_length_eq) simp_all
  have "round53 24338891524382023874215099236353 = 5404319552844600 * 2 ^ 52"
    by (simp add: round53_def Let_def b round_even_def)
  then show ?thesis
    by (simp add: reserved_of_def Let_def s r float64_tenth_def)
qed

section \<open>The plan\<close>

lemma plan_in_range:
  assumes L: "L < 3 * 2 ^ 51" and A: "unat A \<le> L" and r: "L div 10 \<le> L - unat A"
  shows "unat (word_of_nat L - A :: 64 word) = L - unat A"
    and "unat (word_of_nat L - A - word_of_nat (L div 10) :: 64 word) = L - unat A - L div 10"
proof -
  from L have L64: "L < 2 ^ 64" by simp
  have uL: "unat (word_of_nat L :: 64 word) = L" using L64 by (rule unat_of_nat64)
  have "L div 10 \<le> L" by simp
  then have "L div 10 < 2 ^ 64" using L64 by (rule order.strict_trans1)
  then have uq: "unat (word_of_nat (L div 10) :: 64 word) = L div 10" by (rule unat_of_nat64)
  have "A \<le> word_of_nat L" using A by (simp add: word_le_nat_alt uL)
  then show av: "unat (word_of_nat L - A :: 64 word) = L - unat A"
    by (simp add: unat_sub uL)
  have "(word_of_nat (L div 10) :: 64 word) \<le> word_of_nat L - A"
    using r by (simp add: word_le_nat_alt uq av)
  then show "unat (word_of_nat L - A - word_of_nat (L div 10) :: 64 word) = L - unat A - L div 10"
    by (simp add: unat_sub uq av)
qed

lemma reserved_of_minus_one: "reserved_of (- 1) = 0"
proof -
  have one: "round53 (Suc 0) = Suc 0" by (rule round53_small) simp
  have t: "round53 float64_tenth = float64_tenth"
    by (rule round53_small) (simp add: float64_tenth_def)
  have "float64_tenth div 2 ^ 55 = 0" by (simp add: float64_tenth_def)
  then show ?thesis by (simp add: reserved_of_def Let_def one t)
qed

lemma uint_minus_one_minus: "uint (- 1 - w :: 64 word) = 2 ^ 64 - 1 - uint w"
proof -
  have lo: "0 \<le> 2 ^ 64 - 1 - uint w" using uint_lt2p [of w] by simp
  have hi: "2 ^ 64 - 1 - uint w < 2 ^ 64" using uint_ge_0 [of w] by linarith
  have "uint (- 1 - w) = (uint (- 1 :: 64 word) - uint w) mod 2 ^ 64"
    by (simp add: uint_word_ariths)
  also have "uint (- 1 :: 64 word) = 2 ^ 64 - 1"
    by (simp add: unsigned_minus_1_eq_mask mask_eq_exp_minus_1)
  also have "(2 ^ 64 - 1 - uint w) mod 2 ^ 64 = 2 ^ 64 - 1 - uint w"
    using lo hi by (rule mod_pos_pos_trivial)
  finally show ?thesis .
qed

section \<open>The reachable stores\<close>















section \<open>The loop on the heap\<close>

lemma bytes_at_append_ok:
  "(case r of None \<Rightarrow> True | Some a \<Rightarrow> a < length ars) \<Longrightarrow> bytes_at (ars @ zs) r = bytes_at ars r"
  by (auto simp: bytes_at_def nth_append split: option.splits)

lemma bytes_at_append_nonempty:
  "bytes_at ars r \<noteq> [] \<Longrightarrow> bytes_at (ars @ zs) r = bytes_at ars r"
  by (auto simp: bytes_at_def nth_append split: option.splits if_splits)

lemma heap_walk_nonpos: "rem \<le> 0 \<Longrightarrow> heap_walk ars rem rs = (rem, ars, rs)"
  by (cases rs) auto

lemma heap_release_loop_walk:
  "i \<le> length (refs h) \<Longrightarrow> cut_ok rem (drop i (store_of h)) \<Longrightarrow>
   heap_release_loop i rem h =
     (case heap_walk (arrays h) rem (drop i (refs h)) of
        (x, ars', rs') \<Rightarrow> Inr (x, h\<lparr>arrays := ars', refs := take i (refs h) @ rs'\<rparr>))"
proof (induction i rem h rule: heap_release_loop.induct)
  case (1 i rem h)
  show ?case
  proof (cases "i < length (refs h) \<and> 0 < rem")
    case False
    then have "heap_walk (arrays h) rem (drop i (refs h)) = (rem, arrays h, drop i (refs h))"
      using "1.prems"(1) by (cases "0 < rem") (auto simp: heap_walk_nonpos)
    moreover have "heap_release_loop i rem h = Inr (rem, h)"
      by (subst heap_release_loop.simps) (simp only: False if_False)
    ultimately show ?thesis by simp
  next
    case True
    define head where "head = refs h ! i"
    define bs where "bs = bytes_at (arrays h) head"
    define l where "l = int (length bs)"
    have dr: "drop i (refs h) = head # drop (Suc i) (refs h)"
      using True by (simp add: head_def Cons_nth_drop_Suc)
    have ds: "drop i (store_of h) = bs # drop (Suc i) (store_of h)"
      using True by (simp add: store_of_def bs_def head_def Cons_nth_drop_Suc [symmetric])
    show ?thesis
    proof (cases "l \<le> rem")
      case le: True
      define h' where "h' = h\<lparr>refs := (refs h)[i := None]\<rparr>"
      have st: "drop (Suc i) (store_of h') = drop (Suc i) (store_of h)"
        by (simp add: h'_def store_of_def map_update)
      have "heap_release_loop i rem h = heap_release_loop (Suc i) (rem - l) h'"
        using True le
        by (subst heap_release_loop.simps) (simp add: head_def bs_def l_def h'_def Let_def)
      also have "\<dots> =
        (case heap_walk (arrays h') (rem - l) (drop (Suc i) (refs h')) of
           (x, ars', rs') \<Rightarrow> Inr (x, h'\<lparr>arrays := ars', refs := take (Suc i) (refs h') @ rs'\<rparr>))"
        unfolding h'_def
      proof (rule "1.IH"(1) [OF True head_def])
        show "l = int (length (bytes_at (arrays h) head))" by (simp add: l_def bs_def)
        show "l \<le> rem" by (rule le)
        show "Suc i \<le> length (refs (h\<lparr>refs := (refs h)[i := None]\<rparr>))" using True by simp
        show "cut_ok (rem - l) (drop (Suc i) (store_of (h\<lparr>refs := (refs h)[i := None]\<rparr>)))"
          using "1.prems"(2) True le st by (simp add: ds l_def h'_def)
      qed
      also have "drop (Suc i) (refs h') = drop (Suc i) (refs h)" by (simp add: h'_def)
      also have "take (Suc i) (refs h') = take i (refs h) @ [None]"
        using True by (simp add: h'_def take_Suc_conv_app_nth)
      also have "arrays h' = arrays h" by (simp add: h'_def)
      finally show ?thesis
        using True le by (simp add: dr l_def bs_def h'_def split: prod.splits)
    next
      case gt: False
      define n where "n = length bs - nat rem"
      have "l - rem \<le> maxAlloc"
        using "1.prems"(2) True gt by (simp add: ds l_def)
      then have mk: "make_bytes (l - rem) = Inr (replicate n 0)"
        using gt True by (simp add: make_bytes_def l_def n_def nat_diff_distrib')
      have cp: "copy_bytes (replicate n 0) bs = take n bs"
        by (rule copy_into_fresh) (simp add: n_def)
      have "bs \<noteq> []" using gt True by (auto simp: l_def)
      then have keep: "bytes_at (arrays h @ [replicate n 0]) head = bs"
        unfolding bs_def by (rule bytes_at_append_nonempty)
      define h2 where
        "h2 = h\<lparr>arrays := arrays h @ [take n bs], refs := (refs h)[i := Some (length (arrays h))]\<rparr>"
      have "heap_release_loop i rem h = heap_release_loop (Suc i) 0 h2"
        using True gt
        by (subst heap_release_loop.simps)
          (simp add: head_def [symmetric] bs_def [symmetric] l_def [symmetric] heap_make_def mk
            keep cp h2_def Let_def)
      also have "\<dots> = Inr (0, h2)"
        by (subst heap_release_loop.simps) simp
      finally have res: "heap_release_loop i rem h = Inr (0, h2)" .
      have e: "(refs h)[i := Some (length (arrays h))] =
          take i (refs h) @ Some (length (arrays h)) # drop (Suc i) (refs h)"
        using True by (simp add: upd_conv_take_nth_drop)
      show ?thesis
        using True gt by (simp add: res dr l_def bs_def [symmetric] n_def h2_def e)
    qed
  qed
qed




lemma heap_walk_walk:
  assumes "\<forall>r\<in>set rs. case r of None \<Rightarrow> True | Some a \<Rightarrow> a < length ars"
    and "heap_walk ars rem rs = (x, ars', rs')"
  shows "walk rem (map (bytes_at ars) rs) = (x, map (bytes_at ars') rs')"
  using assms
proof (induction rs arbitrary: rem x ars' rs')
  case Nil
  then show ?case by simp
next
  case (Cons r rs)
  from Cons.prems(1)
  have r: "case r of None \<Rightarrow> True | Some a \<Rightarrow> a < length ars"
    and rs: "\<forall>r\<in>set rs. case r of None \<Rightarrow> True | Some a \<Rightarrow> a < length ars"
    by simp_all
  define bs where "bs = bytes_at ars r"
  show ?case
  proof (cases "0 < rem")
    case False
    with Cons.prems(2) show ?thesis by auto
  next
    case True
    show ?thesis
    proof (cases "int (length bs) \<le> rem")
      case le: True
      obtain y ars1 rs1 where w: "heap_walk ars (rem - int (length bs)) rs = (y, ars1, rs1)"
        by (cases "heap_walk ars (rem - int (length bs)) rs") auto
      from Cons.prems(2) True le w have e: "x = y" "ars' = ars1" "rs' = None # rs1"
        by (simp_all add: bs_def)
      have "bytes_at ars1 None = []" by (simp add: bytes_at_def)
      with Cons.IH [OF rs w] True le show ?thesis
        by (simp add: e bs_def [symmetric])
    next
      case gt: False
      from Cons.prems(2) True gt
      have e: "x = 0" "ars' = ars @ [take (length bs - nat rem) bs]" "rs' = Some (length ars) # rs"
        by (simp_all add: bs_def)
      have "map (bytes_at (ars @ [take (length bs - nat rem) bs])) rs = map (bytes_at ars) rs"
      proof (rule map_cong [OF refl])
        fix q assume "q \<in> set rs"
        with rs have "case q of None \<Rightarrow> True | Some a \<Rightarrow> a < length ars" by blast
        then show "bytes_at (ars @ [take (length bs - nat rem) bs]) q = bytes_at ars q"
          by (rule bytes_at_append_ok)
      qed
      moreover have "bytes_at (ars @ [take (length bs - nat rem) bs]) (Some (length ars)) =
          take (length bs - nat rem) bs"
        by (simp add: bytes_at_def)
      ultimately show ?thesis using True gt
        by (simp add: e bs_def [symmetric])
    qed
  qed
qed

lemma heap_release_refines:
  assumes "heap_ok h" "cut_ok n (store_of h)"
  shows "\<exists>res h'. heap_release n h = Inr (res, h') \<and> release n (store_of h) = Inr (res, store_of h')"
proof -
  obtain x ars' rs' where w: "heap_walk (arrays h) n (refs h) = (x, ars', rs')"
    by (cases "heap_walk (arrays h) n (refs h)") auto
  have ok: "\<forall>r\<in>set (refs h). case r of None \<Rightarrow> True | Some a \<Rightarrow> a < length (arrays h)"
    using assms(1) by (simp add: heap_ok_def)
  from heap_walk_walk [OF ok w]
  have ww: "walk n (store_of h) = (x, map (bytes_at ars') rs')"
    by (simp add: store_of_def)
  have "heap_release_loop 0 n h = Inr (x, h\<lparr>arrays := ars', refs := rs'\<rparr>)"
    using heap_release_loop_walk [of 0 h n] assms(2) by (simp add: w)
  then have "heap_release n h = Inr ((n - x, x), h\<lparr>arrays := ars', refs := rs'\<rparr>)"
    by (simp add: heap_release_def)
  moreover have "release n (store_of h) = Inr ((n - x, x), map (bytes_at ars') rs')"
    using release_walk [OF assms(2)] by (simp add: ww)
  moreover have "store_of (h\<lparr>arrays := ars', refs := rs'\<rparr>) = map (bytes_at ars') rs'"
    by (simp add: store_of_def)
  ultimately show ?thesis by simp
qed

section \<open>Claims about the slab store\<close>

text \<open>C8, as the spec states it, fails for sizes above \<^verbatim>\<open>maxAlloc\<close>: \<^verbatim>\<open>add(2^48 + 1)\<close>
  panics in \<^verbatim>\<open>make\<close> and appends nothing.\<close>

theorem add_beyond_counterexample:
  "(0 :: int) \<le> 281474976710657 \<and> add 281474976710657 [] = Inl MakesliceLenOutOfRange"
  by (simp add: add_beyond maxAlloc_def)

text \<open>C8, amended: for every \<^verbatim>\<open>add(size)\<close> with a size from 0 to \<^verbatim>\<open>maxAlloc\<close>, exactly one
  new slab is appended to the store, it has exactly that many bytes, and every byte of
  it holds the sentinel 1, which is not zero. The slabs that the scripted mode builds in
  \<^verbatim>\<open>main\<close>, for a length in the same range, hold the sentinel \<^verbatim>\<open>0xff\<close> in every byte.\<close>

theorem add_appends_sentinel_slab:
  "0 \<le> n \<Longrightarrow> n \<le> maxAlloc \<Longrightarrow>
   (\<exists>m. add n data = Inr (data @ [m]) \<and> int (length m) = n \<and> (\<forall>b\<in>set m. b = 1 \<and> b \<noteq> 0)) \<and>
   (0 \<le> sint w \<and> sint w \<le> maxAlloc \<longrightarrow>
      (\<exists>m. main_slab w = Inr m \<and> length m = unat w \<and> (\<forall>b\<in>set m. b = 255 \<and> b \<noteq> 0)))"
  by (simp add: add_nonneg main_slab_nonneg)

theorem add_appends_sentinel_slab_witness:
  "(0::int) \<le> 3 \<and> (3::int) \<le> maxAlloc \<and>
   (\<exists>m. add 3 [[1]] = Inr ([[1]] @ [m]) \<and> int (length m) = 3 \<and> (\<forall>b\<in>set m. b = 1 \<and> b \<noteq> 0)) \<and>
   0 \<le> sint (2 :: 64 word) \<and> sint (2 :: 64 word) \<le> maxAlloc \<and>
   (\<exists>m. main_slab 2 = Inr m \<and> length m = unat (2 :: 64 word) \<and> (\<forall>b\<in>set m. b = 255 \<and> b \<noteq> 0))"
  using add_appends_sentinel_slab [of 3 "[[1]]" 2] by (simp add: maxAlloc_def)

text \<open>C6, as the spec states it, fails when an amount is above \<^verbatim>\<open>maxAlloc\<close>: after a
  reset, \<^verbatim>\<open>/add?bytes=281474976710657\<close> panics in \<^verbatim>\<open>make\<close>, the store stays empty, and
  \<^verbatim>\<open>totalBytes()\<close> is 0, not the amount.\<close>

theorem add_sequence_counterexample:
  "(0 :: int) \<le> 281474976710657 \<and>
   add_all [281474976710657] (reset [[1]]) = Inl MakesliceLenOutOfRange \<and>
   handle_add [''bytes'' \<mapsto> [''281474976710657'']] (reset [[1]]) =
     (HandlerPanic MakesliceLenOutOfRange, []) \<and>
   totalBytes [] = 0"
proof -
  have "parseBytes [''bytes'' \<mapsto> [''281474976710657'']] = Inr 281474976710657"
    by (simp add: parseBytes_def Atoi_def digit_val_def)
  then show ?thesis
    by (simp add: handle_add_def reset_def add_beyond maxAlloc_def totalBytes_def)
qed

text \<open>C6, amended: after a \<^verbatim>\<open>reset()\<close>, any sequence of \<^verbatim>\<open>add(n)\<close> calls with every \<open>n\<close>
  from 0 to \<^verbatim>\<open>maxAlloc\<close> runs without a panic and leaves \<^verbatim>\<open>totalBytes()\<close> equal to the sum
  of the amounts; and \<^verbatim>\<open>reset()\<close> gives \<^verbatim>\<open>totalBytes() == 0\<close> from every store.\<close>

theorem add_sequence_total:
  "\<forall>n\<in>set ns. 0 \<le> n \<and> n \<le> maxAlloc \<Longrightarrow>
   (\<exists>data'. add_all ns (reset data) = Inr data' \<and> totalBytes data' = sum_list ns) \<and>
   totalBytes (reset data) = 0"
  using add_all_total [of ns "[]"] by (simp add: reset_def totalBytes_Nil)

theorem add_sequence_total_witness:
  "(0::int) \<le> 100 \<and> (100::int) \<le> maxAlloc \<and> (0::int) \<le> 50 \<and> (50::int) \<le> maxAlloc \<and>
   (0::int) \<le> 0 \<and> (0::int) \<le> maxAlloc \<and>
   (\<exists>data'. add_all [100, 50, 0] (reset [[1, 1]]) = Inr data' \<and> totalBytes data' = 150) \<and>
   totalBytes (reset [[1, 1]]) = 0"
  using add_sequence_total [of "[100, 50, 0]" "[[1, 1]]"] by (simp add: maxAlloc_def)

text \<open>C4: for every store that Go can hold (no slab above \<^verbatim>\<open>maxAlloc\<close>, as in every
  reachable store) and every \<^verbatim>\<open>release(amount)\<close> with an amount of 0 or more, the call
  returns, \<open>released + shortfall = amount\<close>, \<open>released\<close> is at most the \<^verbatim>\<open>totalBytes()\<close>
  of the store before the call, and \<open>shortfall\<close> is \<open>max 0 (amount - totalBytes)\<close>. The
  store holds \<open>released\<close> bytes less afterwards.\<close>

theorem release_accounting:
  "store_ok data \<Longrightarrow> 0 \<le> amount \<Longrightarrow>
   \<exists>released shortfall data'.
     release amount data = Inr ((released, shortfall), data') \<and>
     released + shortfall = amount \<and>
     released \<le> totalBytes data \<and>
     shortfall = max 0 (amount - totalBytes data) \<and>
     totalBytes data' = totalBytes data - released"
  using totalBytes_nonneg [of data]
  by (simp add: release_walk cut_ok_store_ok walk_shortfall walk_total)

theorem release_accounting_witness:
  "store_ok [replicate 100 1, replicate 50 1] \<and> (0::int) \<le> 120 \<and>
   (\<exists>released shortfall data'.
     release 120 [replicate 100 1, replicate 50 1] = Inr ((released, shortfall), data') \<and>
     released + shortfall = 120 \<and>
     released \<le> totalBytes [replicate 100 1, replicate 50 1] \<and>
     shortfall = max 0 (120 - totalBytes [replicate 100 1, replicate 50 1]) \<and>
     totalBytes data' = totalBytes [replicate 100 1, replicate 50 1] - released)"
  using release_accounting [of "[replicate 100 1, replicate 50 1]" 120]
  by (simp add: store_ok_def maxAlloc_def)

text \<open>C5: for every store with total \<open>T\<close> and every \<^verbatim>\<open>release(amount)\<close> with
  \<open>amount \<ge> T\<close>, the call releases \<open>T\<close> bytes, reports the shortfall \<open>amount - T\<close>, and
  leaves a store of \<^verbatim>\<open>totalBytes() == 0\<close>: every slot of \<^verbatim>\<open>data\<close> holds an empty slab.
  Releasing exactly \<open>T\<close> does so with a shortfall of 0.\<close>

theorem release_all_empties:
  "totalBytes data \<le> amount \<Longrightarrow>
   release amount data =
     Inr ((totalBytes data, amount - totalBytes data), replicate (length data) []) \<and>
   totalBytes (replicate (length data) []) = 0 \<and>
   release (totalBytes data) data = Inr ((totalBytes data, 0), replicate (length data) [])"
  using release_everything [of data amount] release_everything [of data "totalBytes data"]
  by (simp add: totalBytes_nils)

theorem release_all_empties_witness:
  "totalBytes [[1, 1], [1]] \<le> 5 \<and>
   release 5 [[1, 1], [1]] = Inr ((3, 2), [[], []]) \<and>
   totalBytes [[], []] = 0 \<and>
   release 3 [[1, 1], [1]] = Inr ((3, 0), [[], []])"
  using release_all_empties [of "[[1, 1], [1]]" 5] by (simp add: totalBytes_def)

text \<open>C10: for every store and every \<^verbatim>\<open>release(amount)\<close> with a negative amount, the
  store is left as it was and the call returns \<open>released = 0\<close> and
  \<open>notReleased = amount\<close>, the negative input itself.\<close>

theorem release_negative:
  "amount < 0 \<Longrightarrow> release amount data = Inr ((0, amount), data)"
  by (simp add: release_nonpos)

theorem release_negative_witness:
  "(- 5 :: int) < 0 \<and> release (- 5) [[1, 2, 3]] = Inr ((0, - 5), [[1, 2, 3]])"
  using release_negative [of "- 5" "[[1, 2, 3]]"] by simp



section \<open>Claims about the interactive control surface\<close>

text \<open>C9: every negative integer \<open>n\<close> of the \<^verbatim>\<open>int\<close> range, written in decimal as in
  \<^verbatim>\<open>/add?bytes=-1\<close>, passes \<^verbatim>\<open>parseBytes\<close>, and \<^verbatim>\<open>add\<close> then calls \<^verbatim>\<open>make\<close> with the
  negative length: the handler panics instead of rejecting the request. The same holds
  for every request whose amount parses to \<open>n\<close>.\<close>

theorem negative_add_panics:
  "- (2 ^ 63) \<le> n \<Longrightarrow> n < 0 \<Longrightarrow>
   parseBytes [''bytes'' \<mapsto> [Itoa n]] = Inr n \<and>
   handle_add [''bytes'' \<mapsto> [Itoa n]] data = (HandlerPanic MakesliceLenOutOfRange, data) \<and>
   (\<forall>r. parseBytes r = Inr n \<longrightarrow>
      handle_add r data = (HandlerPanic MakesliceLenOutOfRange, data))"
  by (simp add: parseBytes_Itoa handle_add_negative)

theorem negative_add_panics_witness:
  "- (2 ^ 63) \<le> (- 1 :: int) \<and> (- 1 :: int) < 0 \<and>
   parseBytes [''bytes'' \<mapsto> [''-1'']] = Inr (- 1) \<and>
   handle_add [''bytes'' \<mapsto> [''-1'']] [[1]] = (HandlerPanic MakesliceLenOutOfRange, [[1]])"
  using negative_add_panics [of "- 1" "[[1]]"] by (simp add: Itoa_minus_one)

text \<open>C3, as the spec states it, fails: the negative amount of \<^verbatim>\<open>/rel?bytes=-1\<close> is
  accepted and answered with \<^verbatim>\<open>released: 0\<close>, \<^verbatim>\<open>not released: -1\<close>, and
  \<^verbatim>\<open>/add?bytes=-1\<close> ends in a panic; neither is rejected with a client error.\<close>

theorem negative_amount_counterexample:
  "handle_rel [''bytes'' \<mapsto> [''-1'']] [[1]] = (Released 0 (- 1), [[1]]) \<and>
   handle_add [''bytes'' \<mapsto> [''-1'']] [[1]] = (HandlerPanic MakesliceLenOutOfRange, [[1]])"
  by (simp add: handle_rel_def handle_add_def parseBytes_minus_one release_nonpos add_neg)

text \<open>C3, amended: a request is rejected exactly when its amount is missing or its first
  value does not parse with \<^verbatim>\<open>strconv.Atoi\<close>; it is then answered with a client error and
  the store is left as it was. Every integer of the \<^verbatim>\<open>int\<close> range written in decimal,
  the negative ones too, passes the validation. An accepted amount from 0 to
  \<^verbatim>\<open>maxAlloc\<close> is added as one slab; on a store that Go can hold every accepted amount
  is released with the two counts reported, and a negative one releases nothing and
  leaves the store as it was.\<close>

theorem invalid_amount_rejected:
  "(parseBytes r = Inl e \<longrightarrow>
      handle_add r data = (BadRequest e, data) \<and> handle_rel r data = (BadRequest e, data)) \<and>
   ((\<exists>e. parseBytes r = Inl e) \<longleftrightarrow>
      (r ''bytes'' = None \<or> r ''bytes'' = Some [] \<or>
       (\<exists>b bs e. r ''bytes'' = Some (b # bs) \<and> Atoi b = Inl e))) \<and>
   (- (2 ^ 63) \<le> n \<and> n < 2 ^ 63 \<longrightarrow> parseBytes [''bytes'' \<mapsto> [Itoa n]] = Inr n) \<and>
   (parseBytes r = Inr n \<and> 0 \<le> n \<and> n \<le> maxAlloc \<longrightarrow>
      handle_add r data = (Added n, data @ [replicate (nat n) 1])) \<and>
   (parseBytes r = Inr n \<and> store_ok data \<longrightarrow>
      (\<exists>released shortfall data'. handle_rel r data = (Released released shortfall, data'))) \<and>
   (parseBytes r = Inr n \<and> n < 0 \<longrightarrow> handle_rel r data = (Released 0 n, data))"
proof (intro conjI impI)
  show "(\<exists>e. parseBytes r = Inl e) \<longleftrightarrow>
      (r ''bytes'' = None \<or> r ''bytes'' = Some [] \<or>
       (\<exists>b bs e. r ''bytes'' = Some (b # bs) \<and> Atoi b = Inl e))"
    by (rule parseBytes_Inl_iff)
next
  assume a: "parseBytes r = Inr n \<and> store_ok data"
  then obtain released shortfall data'
    where "release n data = Inr ((released, shortfall), data')"
    using release_returns by blast
  with a show "\<exists>released shortfall data'. handle_rel r data = (Released released shortfall, data')"
    by (simp add: handle_rel_def)
qed (simp_all add: handle_add_def handle_rel_def parseBytes_Itoa add_nonneg add_neg release_nonpos)

theorem invalid_amount_rejected_witness:
  "parseBytes Map.empty = Inl InvalidBytesParam \<and>
   handle_add Map.empty [[1]] = (BadRequest InvalidBytesParam, [[1]]) \<and>
   handle_rel Map.empty [[1]] = (BadRequest InvalidBytesParam, [[1]]) \<and>
   - (2 ^ 63) \<le> (- 1 :: int) \<and> (- 1 :: int) < 2 ^ 63 \<and>
   parseBytes [''bytes'' \<mapsto> [''-1'']] = Inr (- 1) \<and> (- 1 :: int) < 0 \<and> store_ok [[1]] \<and>
   handle_rel [''bytes'' \<mapsto> [''-1'']] [[1]] = (Released 0 (- 1), [[1]]) \<and>
   parseBytes [''bytes'' \<mapsto> [''2'']] = Inr 2 \<and> (0 :: int) \<le> 2 \<and> (2 :: int) \<le> maxAlloc \<and>
   handle_add [''bytes'' \<mapsto> [''2'']] [[1]] = (Added 2, [[1], [1, 1]])"
proof -
  have m: "parseBytes Map.empty = Inl InvalidBytesParam"
    by (simp add: parseBytes_def)
  have t: "parseBytes [''bytes'' \<mapsto> [''2'']] = Inr 2"
    by (simp add: parseBytes_def Atoi_def digit_val_def)
  have two: "replicate 2 (1 :: byte) = [1, 1]"
    by (simp add: numeral_2_eq_2)
  have ok: "store_ok [[1]]" by (simp add: store_ok_def maxAlloc_def)
  from invalid_amount_rejected [of Map.empty InvalidBytesParam "[[1]]" "- 1"]
    invalid_amount_rejected [of "[''bytes'' \<mapsto> [''-1'']]" InvalidBytesParam "[[1]]" "- 1"]
    invalid_amount_rejected [of "[''bytes'' \<mapsto> [''2'']]" InvalidBytesParam "[[1]]" 2]
  show ?thesis
    by (simp add: m t two ok parseBytes_minus_one Itoa_minus_one maxAlloc_def)
qed

section \<open>Claims about the scripted mode\<close>

text \<open>C2, as the spec states it, fails. With \<^verbatim>\<open>-limit=-1\<close>, the value a cgroup reads as
  no limit, the run reaches the plan with a ceiling of \<open>-1\<close>, which every baseline
  exceeds; for a heap reading of 356592 bytes the guarded plan of the spec reports a
  configuration error, while \<^verbatim>\<open>main\<close> computes \<^verbatim>\<open>reserved = 0\<close> and the wrapped
  \<^verbatim>\<open>available = fill = 2^64 - 1 - 356592\<close>, and hands that \<^verbatim>\<open>fill\<close> to \<^verbatim>\<open>make\<close>, where
  the run ends in a panic of the runtime.\<close>

theorem plan_underflow_counterexample:
  "spec_guarded_plan (- 1) 356592 = Inl ConfigurationError \<and>
   compute_plan (- 1) 356592 =
     \<lparr>reserved = 0, available = 18446744073709195023, fill = 18446744073709195023\<rparr> \<and>
   scripted (- 1) 356592 False = Inl MakesliceLenOutOfRange"
proof -
  have p: "compute_plan (- 1) 356592 =
     \<lparr>reserved = 0, available = 18446744073709195023, fill = 18446744073709195023\<rparr>"
    by (simp add: compute_plan_def Let_def reserved_of_minus_one)
  have "sint (18446744073709195023 :: 64 word) < 0" by (simp add: sint64_neg)
  then show ?thesis
    by (simp add: p spec_guarded_plan_def scripted_def main_slab_neg)
qed

text \<open>C2, amended: the scripted mode makes no check. With a ceiling of \<open>-1\<close>
  (\<^verbatim>\<open>-limit=-1\<close>) and any baseline \<open>A < 2 ^ 63\<close>, where the spec asks for a configuration
  error, \<^verbatim>\<open>reserved\<close> is 0, \<^verbatim>\<open>available\<close> and \<^verbatim>\<open>fill\<close> are the wrapped
  \<open>2 ^ 64 - 1 - A\<close>, and the run proceeds to \<^verbatim>\<open>make([]byte, fill)\<close>, which panics with a
  length out of range; no configuration error is reported.\<close>

theorem plan_underflow_wraps:
  "uint heapAlloc < 2 ^ 63 \<Longrightarrow>
   spec_guarded_plan (- 1) heapAlloc = Inl ConfigurationError \<and>
   compute_plan (- 1) heapAlloc =
     \<lparr>reserved = 0, available = - 1 - heapAlloc, fill = - 1 - heapAlloc\<rparr> \<and>
   uint (fill (compute_plan (- 1) heapAlloc)) = 2 ^ 64 - 1 - uint heapAlloc \<and>
   scripted (- 1) heapAlloc gc = Inl MakesliceLenOutOfRange"
proof -
  assume A: "uint heapAlloc < 2 ^ 63"
  have p: "compute_plan (- 1) heapAlloc =
     \<lparr>reserved = 0, available = - 1 - heapAlloc, fill = - 1 - heapAlloc\<rparr>"
    by (simp add: compute_plan_def Let_def reserved_of_minus_one)
  have u: "uint (- 1 - heapAlloc) = 2 ^ 64 - 1 - uint heapAlloc"
    by (rule uint_minus_one_minus)
  with A have "sint (- 1 - heapAlloc) < 0" by (simp add: sint64_neg)
  then have "scripted (- 1) heapAlloc gc = Inl MakesliceLenOutOfRange"
    by (simp add: scripted_def p main_slab_neg)
  moreover have "(- 1 :: int) < uint heapAlloc"
    using uint_ge_0 [of heapAlloc] by linarith
  then have "spec_guarded_plan (- 1) heapAlloc = Inl ConfigurationError"
    by (simp add: spec_guarded_plan_def)
  ultimately show ?thesis using p u by simp
qed

theorem plan_underflow_wraps_witness:
  "uint (2000000 :: 64 word) < 2 ^ 63 \<and>
   spec_guarded_plan (- 1) 2000000 = Inl ConfigurationError \<and>
   compute_plan (- 1) 2000000 =
     \<lparr>reserved = 0, available = 18446744073707551615, fill = 18446744073707551615\<rparr> \<and>
   uint (fill (compute_plan (- 1) 2000000)) = 18446744073707551615 \<and>
   scripted (- 1) 2000000 True = Inl MakesliceLenOutOfRange"
  using plan_underflow_wraps [of 2000000 True] by simp

text \<open>C7, as the spec states it, fails for large ceilings. For \<open>L = 6755399441055749\<close>
  the conversion \<^verbatim>\<open>float64(*limit)\<close> is exact, and the product with the float64 tenth is
  \<open>24338891524382023874215099236353 / 2 ^ 55\<close>, a numerator of 105 bits. Its 53 leading
  bits are \<open>5404319552844599\<close> and the 52 bits cut off are \<open>2251799813685249\<close>, more
  than the half \<open>2 ^ 51\<close>, so the product rounds up to
  \<open>5404319552844600 * 2 ^ 52 / 2 ^ 55 = 675539944105575\<close>, and \<^verbatim>\<open>reserved\<close> is one more than
  \<open>floor (L / 10)\<close>.\<close>

theorem reserved_floor_counterexample:
  "reserved (compute_plan 6755399441055749 0) = 675539944105575 \<and>
   (6755399441055749 :: nat) div 10 = 675539944105574"
  by (simp add: compute_plan_def reserved_of_first_excess)

text \<open>C7, amended: for a ceiling \<open>0 \<le> L < 3 * 2 ^ 51\<close> (6755399441055744) and a baseline
  \<open>A\<close>, the plan has \<open>reserved = floor (L / 10)\<close>, \<open>available = L - A\<close> and
  \<open>fill = available - reserved\<close> in 64-bit unsigned arithmetic, which are the plain
  differences when \<open>A \<le> L\<close> and \<open>reserved \<le> L - A\<close>. When moreover \<^verbatim>\<open>fill\<close> and
  \<^verbatim>\<open>reserved\<close> are at most \<^verbatim>\<open>maxAlloc\<close>, \<^verbatim>\<open>add(fill)\<close> and \<^verbatim>\<open>release(fill)\<close> on the empty
  store leave 0 bytes, \<^verbatim>\<open>add(reserved)\<close> after them gives \<^verbatim>\<open>totalBytes() == reserved\<close>, and
  the run of \<^verbatim>\<open>main\<close> ends with one slab of \<open>reserved\<close> bytes. For \<open>L = 32000000\<close> and
  \<open>A = 2000000\<close> the values are 30000000, 3200000 and 26800000, and the store ends with
  3200000 bytes.\<close>

theorem plan_values:
  "L < 3 * 2 ^ 51 \<Longrightarrow>
   reserved (compute_plan (word_of_nat L) A) = word_of_nat (L div 10) \<and>
   unat (reserved (compute_plan (word_of_nat L) A)) = L div 10 \<and>
   available (compute_plan (word_of_nat L) A) = word_of_nat L - A \<and>
   fill (compute_plan (word_of_nat L) A) =
     available (compute_plan (word_of_nat L) A) - reserved (compute_plan (word_of_nat L) A) \<and>
   (unat A \<le> L \<and> L div 10 \<le> L - unat A \<longrightarrow>
      unat (available (compute_plan (word_of_nat L) A)) = L - unat A \<and>
      unat (fill (compute_plan (word_of_nat L) A)) = L - unat A - L div 10) \<and>
   (unat A \<le> L \<and> L div 10 \<le> L - unat A \<and>
    int (L - unat A - L div 10) \<le> maxAlloc \<and> int (L div 10) \<le> maxAlloc \<longrightarrow>
      (\<exists>d1 d2 d3.
         add (int (L - unat A - L div 10)) [] = Inr d1 \<and>
         release (int (L - unat A - L div 10)) d1 = Inr ((int (L - unat A - L div 10), 0), d2) \<and>
         totalBytes d2 = 0 \<and>
         add (int (L div 10)) d2 = Inr d3 \<and> totalBytes d3 = int (L div 10)) \<and>
      (\<exists>d. scripted (word_of_nat L) A gc = Inr d \<and> totalBytes d = int (L div 10))) \<and>
   compute_plan 32000000 2000000 =
     \<lparr>reserved = 3200000, available = 30000000, fill = 26800000\<rparr> \<and>
   (\<exists>d1 d2 d3.
      add 26800000 [] = Inr d1 \<and> release 26800000 d1 = Inr ((26800000, 0), d2) \<and>
      totalBytes d2 = 0 \<and> add 3200000 d2 = Inr d3 \<and> totalBytes d3 = 3200000)"
proof (intro conjI impI)
  assume L: "L < 3 * 2 ^ 51"
  have q: "L div 10 < 2 ^ 64"
  proof -
    have "L div 10 \<le> L" by simp
    also have "L < 2 ^ 64" using L by simp
    finally show ?thesis .
  qed
  show res: "reserved (compute_plan (word_of_nat L) A) = word_of_nat (L div 10)"
    by (simp add: compute_plan_def Let_def reserved_of_tenth [OF L])
  show ures: "unat (reserved (compute_plan (word_of_nat L) A)) = L div 10"
    by (simp only: res unat_of_nat64 [OF q])
  show av: "available (compute_plan (word_of_nat L) A) = word_of_nat L - A"
    by (simp add: compute_plan_def Let_def)
  show fl: "fill (compute_plan (word_of_nat L) A) =
     available (compute_plan (word_of_nat L) A) - reserved (compute_plan (word_of_nat L) A)"
    by (simp add: compute_plan_def Let_def)
  {
    assume "unat A \<le> L \<and> L div 10 \<le> L - unat A"
    then have A: "unat A \<le> L" and r: "L div 10 \<le> L - unat A" by simp_all
    show "unat (available (compute_plan (word_of_nat L) A)) = L - unat A"
      by (simp only: av plan_in_range(1) [OF L A r])
    show "unat (fill (compute_plan (word_of_nat L) A)) = L - unat A - L div 10"
      by (simp only: fl av res plan_in_range(2) [OF L A r])
  }
  {
    assume a: "unat A \<le> L \<and> L div 10 \<le> L - unat A \<and>
      int (L - unat A - L div 10) \<le> maxAlloc \<and> int (L div 10) \<le> maxAlloc"
    then have A: "unat A \<le> L" and r: "L div 10 \<le> L - unat A"
      and mf: "int (L - unat A - L div 10) \<le> maxAlloc" and mr: "int (L div 10) \<le> maxAlloc"
      by simp_all
    have ufl: "unat (fill (compute_plan (word_of_nat L) A)) = L - unat A - L div 10"
      by (simp only: fl av res plan_in_range(2) [OF L A r])
    show "\<exists>d1 d2 d3.
         add (int (L - unat A - L div 10)) [] = Inr d1 \<and>
         release (int (L - unat A - L div 10)) d1 = Inr ((int (L - unat A - L div 10), 0), d2) \<and>
         totalBytes d2 = 0 \<and>
         add (int (L div 10)) d2 = Inr d3 \<and> totalBytes d3 = int (L div 10)"
      using mf mr by (intro store_cycle) simp_all
    have "L - unat A - L div 10 < 2 ^ 63" "L div 10 < 2 ^ 63" using L by simp_all
    then have sf: "sint (fill (compute_plan (word_of_nat L) A)) = int (L - unat A - L div 10)"
      and sr: "sint (reserved (compute_plan (word_of_nat L) A)) = int (L div 10)"
      using ufl ures by (simp_all add: sint64 uint_nat)
    have "scripted (word_of_nat L) A gc =
        Inr [replicate (unat (reserved (compute_plan (word_of_nat L) A))) 255]"
      by (rule scripted_runs) (simp_all only: sf sr mf mr of_nat_0_le_iff)
    then show "\<exists>d. scripted (word_of_nat L) A gc = Inr d \<and> totalBytes d = int (L div 10)"
      by (simp add: ures totalBytes_def)
  }
  have "reserved_of 32000000 = 3200000"
    using reserved_of_tenth [of 32000000] by simp
  then show "compute_plan 32000000 2000000 =
     \<lparr>reserved = 3200000, available = 30000000, fill = 26800000\<rparr>"
    by (simp add: compute_plan_def)
  show "\<exists>d1 d2 d3.
      add 26800000 [] = Inr d1 \<and> release 26800000 d1 = Inr ((26800000, 0), d2) \<and>
      totalBytes d2 = 0 \<and> add 3200000 d2 = Inr d3 \<and> totalBytes d3 = 3200000"
    by (rule store_cycle) (simp_all add: maxAlloc_def)
qed

theorem plan_values_witness:
  "(32000000 :: nat) < 3 * 2 ^ 51 \<and>
   unat (2000000 :: 64 word) \<le> 32000000 \<and>
   (32000000 :: nat) div 10 \<le> 32000000 - unat (2000000 :: 64 word) \<and>
   int (32000000 - unat (2000000 :: 64 word) - 32000000 div 10) \<le> maxAlloc \<and>
   int (32000000 div 10) \<le> maxAlloc \<and>
   unat (reserved (compute_plan 32000000 2000000)) = 3200000 \<and>
   unat (available (compute_plan 32000000 2000000)) = 30000000 \<and>
   unat (fill (compute_plan 32000000 2000000)) = 26800000 \<and>
   (\<exists>d1 d2 d3.
      add 26800000 [] = Inr d1 \<and> release 26800000 d1 = Inr ((26800000, 0), d2) \<and>
      totalBytes d2 = 0 \<and> add 3200000 d2 = Inr d3 \<and> totalBytes d3 = 3200000) \<and>
   (\<exists>d. scripted 32000000 2000000 False = Inr d \<and> totalBytes d = 3200000)"
  using plan_values [of 32000000 2000000 False] by (simp add: maxAlloc_def)

end
